theory Spec2Isabelle
  imports Main "HOL-Library.AList" "HOL-Library.Multiset" "HOL-Library.Char_ord"
    "HOL-Library.List_Lexorder"
begin

section \<open>Go values\<close>

text \<open>
  A Go \<^verbatim>\<open>map[K]V\<close> is an association list whose keys are pairwise distinct:
  \<^verbatim>\<open>m[k]\<close> (with the comma-ok result) is \<open>map_of m k\<close>, \<^verbatim>\<open>m[k] = v\<close> is
  \<open>AList.update k v m\<close>, \<^verbatim>\<open>delete(m, k)\<close> is \<open>AList.delete k m\<close> and \<^verbatim>\<open>len(m)\<close> is
  \<open>length m\<close>. The order of the list stands for the order in which \<^verbatim>\<open>range\<close> visits the
  map, which Go leaves open; no theorem below depends on it. A Go \<^verbatim>\<open>int\<close> that is only
  compared is an \<open>int\<close>. A run-time panic is a value of \<open>error\<close>, returned as \<open>Inl\<close>.
\<close>

type_synonym ('k, 'v) gomap = "('k \<times> 'v) list"

datatype error =
    MakesliceCapOutOfRange  \<comment> \<open>\<^verbatim>\<open>make([]T, 0, c)\<close> with \<^verbatim>\<open>c < 0\<close>\<close>
  | IndexOutOfRange         \<comment> \<open>\<^verbatim>\<open>s[0]\<close> on an empty slice\<close>
  | NilPointerDereference   \<comment> \<open>a field read through a nil pointer\<close>

section \<open>PodRegistry (string\_storage.go)\<close>

record PodName =
  Podname :: string
  Namespace :: string

record PodID =
  PodUuid :: string
  ContainerId :: string

text \<open>The registry without its mutex: every method holds the lock from its first
  statement to its return, so a call is one step on this state.\<close>

record PodRegistry =
  keyToValue :: "(PodName, PodID) gomap"
  valueToKey :: "(PodID, PodName) gomap"
  keyOrder :: "PodName list"
  capacity :: int

text \<open>\<^verbatim>\<open>NewPodRegistry\<close> has no check of its own. Its only failure is the one of
  \<^verbatim>\<open>make([]PodName, 0, capacity)\<close>, which panics at run time when the capacity is
  negative. The limit of the allocator on huge capacities is not modelled.\<close>

definition NewPodRegistry :: "int \<Rightarrow> error + PodRegistry" where
  "NewPodRegistry cap =
     (if cap < 0 then Inl MakesliceCapOutOfRange
      else Inr \<lparr>keyToValue = [], valueToKey = [], keyOrder = [], capacity = cap\<rparr>)"

text \<open>The loop of \<^verbatim>\<open>removeFromKeyOrder\<close>: the first element equal to the key is cut out
  and the loop breaks.\<close>

fun cutFirst :: "PodName \<Rightarrow> PodName list \<Rightarrow> PodName list" where
  "cutFirst key [] = []"
| "cutFirst key (k # ks) = (if k = key then ks else k # cutFirst key ks)"

definition removeFromKeyOrder :: "PodRegistry \<Rightarrow> PodName \<Rightarrow> PodRegistry" where
  "removeFromKeyOrder pr key = pr\<lparr>keyOrder := cutFirst key (keyOrder pr)\<rparr>"

definition deleteInternal :: "PodRegistry \<Rightarrow> PodName \<Rightarrow> PodRegistry" where
  "deleteInternal pr key =
     (case map_of (keyToValue pr) key of
        None \<Rightarrow> pr
      | Some val \<Rightarrow>
          removeFromKeyOrder
            (pr\<lparr>keyToValue := AList.delete key (keyToValue pr),
                valueToKey := AList.delete val (valueToKey pr)\<rparr>) key)"

definition Delete :: "PodRegistry \<Rightarrow> PodName \<Rightarrow> PodRegistry" where
  "Delete pr key = deleteInternal pr key"

text \<open>The three statements that end the new-key branch of \<^verbatim>\<open>Set\<close>.\<close>

definition addEntry :: "PodRegistry \<Rightarrow> PodName \<Rightarrow> PodID \<Rightarrow> PodRegistry" where
  "addEntry pr key val =
     pr\<lparr>keyToValue := AList.update key val (keyToValue pr),
        valueToKey := AList.update val key (valueToKey pr),
        keyOrder := keyOrder pr @ [key]\<rparr>"

definition Set :: "PodRegistry \<Rightarrow> PodName \<Rightarrow> PodID \<Rightarrow> error + PodRegistry" where
  "Set pr key val =
     (case map_of (keyToValue pr) key of
        Some oldValue \<Rightarrow>
          (let pr1 = pr\<lparr>valueToKey := AList.delete oldValue (valueToKey pr)\<rparr>;
               pr2 = pr1\<lparr>keyToValue := AList.update key val (keyToValue pr1)\<rparr>;
               pr3 = pr2\<lparr>valueToKey := AList.update val key (valueToKey pr2)\<rparr>;
               pr4 = removeFromKeyOrder pr3 key
           in Inr (pr4\<lparr>keyOrder := keyOrder pr4 @ [key]\<rparr>))
      | None \<Rightarrow>
          (if int (length (keyToValue pr)) \<ge> capacity pr then
             (case keyOrder pr of
                [] \<Rightarrow> Inl IndexOutOfRange
              | oldestKey # _ \<Rightarrow> Inr (addEntry (deleteInternal pr oldestKey) key val))
           else Inr (addEntry pr key val)))"

text \<open>A lookup that misses returns the zero value of the result type and \<open>False\<close>.\<close>

definition GetValueByKey :: "PodRegistry \<Rightarrow> PodName \<Rightarrow> PodID \<times> bool" where
  "GetValueByKey pr key =
     (case map_of (keyToValue pr) key of
        Some val \<Rightarrow> (val, True)
      | None \<Rightarrow> (\<lparr>PodUuid = [], ContainerId = []\<rparr>, False))"

definition GetKeyByValue :: "PodRegistry \<Rightarrow> PodID \<Rightarrow> PodName \<times> bool" where
  "GetKeyByValue pr val =
     (case map_of (valueToKey pr) val of
        Some key \<Rightarrow> (key, True)
      | None \<Rightarrow> (\<lparr>Podname = [], Namespace = []\<rparr>, False))"

definition Count :: "PodRegistry \<Rightarrow> int" where
  "Count pr = int (length (keyToValue pr))"

text \<open>A history of calls on one registry. A panic ends the run.\<close>

datatype op = OpSet PodName PodID | OpDelete PodName

fun applyOp :: "PodRegistry \<Rightarrow> op \<Rightarrow> error + PodRegistry" where
  "applyOp pr (OpSet key val) = Set pr key val"
| "applyOp pr (OpDelete key) = Inr (Delete pr key)"

fun run :: "PodRegistry \<Rightarrow> op list \<Rightarrow> error + PodRegistry" where
  "run pr [] = Inr pr"
| "run pr (c # cs) = (case applyOp pr c of Inl e \<Rightarrow> Inl e | Inr pr' \<Rightarrow> run pr' cs)"

text \<open>The states a program can see: what \<^verbatim>\<open>NewPodRegistry\<close> returns, and what \<^verbatim>\<open>Set\<close>
  and \<^verbatim>\<open>Delete\<close> make of such a state.\<close>

inductive reachable :: "PodRegistry \<Rightarrow> bool" where
  created: "NewPodRegistry cap = Inr pr \<Longrightarrow> reachable pr"
| after_Set: "reachable pr \<Longrightarrow> Set pr key val = Inr pr' \<Longrightarrow> reachable pr'"
| after_Delete: "reachable pr \<Longrightarrow> reachable (Delete pr key)"

text \<open>The caller's side of the file's note on values (\<^emph>\<open>mind the uniqueness of the
  values\<close>): a value handed to \<^verbatim>\<open>Set\<close> is not bound to another key at that moment.\<close>

definition valueFree :: "PodRegistry \<Rightarrow> PodName \<Rightarrow> PodID \<Rightarrow> bool" where
  "valueFree pr key val =
     (case map_of (valueToKey pr) val of None \<Rightarrow> True | Some k \<Rightarrow> k = key)"

fun uniqueValues :: "PodRegistry \<Rightarrow> op list \<Rightarrow> bool" where
  "uniqueValues pr [] = True"
| "uniqueValues pr (OpSet key val # cs) =
     (valueFree pr key val \<and>
      (case Set pr key val of Inl e \<Rightarrow> True | Inr pr' \<Rightarrow> uniqueValues pr' cs))"
| "uniqueValues pr (OpDelete key # cs) = uniqueValues (Delete pr key) cs"

text \<open>The invariant of the data model, read on a state: the two maps are inverse to
  each other, and the maps and the eviction order have one size.\<close>

definition mutualInverses :: "PodRegistry \<Rightarrow> bool" where
  "mutualInverses pr =
     (\<forall>k v. (map_of (keyToValue pr) k = Some v) = (map_of (valueToKey pr) v = Some k))"

definition sameSizes :: "PodRegistry \<Rightarrow> bool" where
  "sameSizes pr =
     (length (keyToValue pr) = length (valueToKey pr) \<and>
      length (keyToValue pr) = length (keyOrder pr))"

text \<open>What the proofs keep of a state. The eviction order lists the keys of the forward
  map, each once; a state is consistent when, besides, the reverse map is the inverse
  of the forward map.\<close>

definition orderTracks :: "PodRegistry \<Rightarrow> bool" where
  "orderTracks pr =
     (distinct (map fst (keyToValue pr)) \<and> distinct (keyOrder pr) \<and>
      set (keyOrder pr) = fst ` set (keyToValue pr))"

definition consistent :: "PodRegistry \<Rightarrow> bool" where
  "consistent pr =
     (orderTracks pr \<and> distinct (map fst (valueToKey pr)) \<and> mutualInverses pr)"

text \<open>The keys and values that \<^verbatim>\<open>main\<close> of string\_storage.go stores.\<close>

definition key1 :: PodName where "key1 = \<lparr>Podname = ''pod1'', Namespace = ''ns1''\<rparr>"
definition key2 :: PodName where "key2 = \<lparr>Podname = ''pod2'', Namespace = ''ns2''\<rparr>"
definition key3 :: PodName where "key3 = \<lparr>Podname = ''pod3'', Namespace = ''ns3''\<rparr>"
definition key4 :: PodName where "key4 = \<lparr>Podname = ''pod4'', Namespace = ''ns4''\<rparr>"
definition value1 :: PodID where "value1 = \<lparr>PodUuid = ''uuid1'', ContainerId = ''container1''\<rparr>"
definition value2 :: PodID where "value2 = \<lparr>PodUuid = ''uuid2'', ContainerId = ''container2''\<rparr>"
definition value3 :: PodID where "value3 = \<lparr>PodUuid = ''uuid3'', ContainerId = ''container3''\<rparr>"
definition value4 :: PodID where "value4 = \<lparr>PodUuid = ''uuid4'', ContainerId = ''container4''\<rparr>"

section \<open>PodStore\<close>

record PodInfo =
  Labels :: "(string, string) gomap"
  IPv4 :: string
  IPv6 :: string

record IpInfo =
  IPv4 :: string
  IPv6 :: string

record PodStore =
  data :: "(string, (string, PodInfo) gomap) gomap"

text \<open>Of \<^verbatim>\<open>metav1.LabelSelector\<close> the code reads \<^verbatim>\<open>MatchLabels\<close> only.\<close>

record LabelSelector =
  MatchLabels :: "(string, string) gomap"

definition NewPodStore :: PodStore where
  "NewPodStore = \<lparr>data = []\<rparr>"

text \<open>\<^verbatim>\<open>m[k]\<close> without the comma-ok result: a missing key reads as the zero value, the
  empty string for a label and the nil map (no entries) for a namespace.\<close>

definition indexOr :: "'v \<Rightarrow> ('k, 'v) gomap \<Rightarrow> 'k \<Rightarrow> 'v" where
  "indexOr zero m k = (case map_of m k of None \<Rightarrow> zero | Some v \<Rightarrow> v)"

text \<open>The inner map is shared with the outer one, so a store into it is a store into
  the outer map's entry. The entry exists when \<^verbatim>\<open>AddPod\<close> writes to it.\<close>

definition AddPod ::
  "PodStore \<Rightarrow> string \<Rightarrow> string \<Rightarrow> (string, string) gomap \<Rightarrow> string \<Rightarrow> string \<Rightarrow> PodStore" where
  "AddPod ps namespace name labels ipv4 ipv6 =
     (let data1 = (case map_of (data ps) namespace of
                     None \<Rightarrow> AList.update namespace [] (data ps)
                   | Some m \<Rightarrow> data ps);
          podInfo = \<lparr>Labels = labels, PodInfo.IPv4 = ipv4, PodInfo.IPv6 = ipv6\<rparr>
      in ps\<lparr>data := AList.update namespace
                      (AList.update name podInfo (indexOr [] data1 namespace)) data1\<rparr>)"

definition DeletePod :: "PodStore \<Rightarrow> string \<Rightarrow> string \<Rightarrow> PodStore" where
  "DeletePod ps namespace name =
     (case map_of (data ps) namespace of
        None \<Rightarrow> ps
      | Some m \<Rightarrow>
          (let data1 = AList.update namespace (AList.delete name m) (data ps)
           in if length (indexOr [] data1 namespace) = 0
              then ps\<lparr>data := AList.delete namespace data1\<rparr>
              else ps\<lparr>data := data1\<rparr>))"

fun matchesSelector :: "(string, string) gomap \<Rightarrow> (string, string) gomap \<Rightarrow> bool" where
  "matchesSelector labels [] = True"
| "matchesSelector labels ((key, val) # selector) =
     (if indexOr [] labels key \<noteq> val then False else matchesSelector labels selector)"

text \<open>The copy loop that builds \<^verbatim>\<open>selectorMap\<close>.\<close>

definition copyMap :: "('k, 'v) gomap \<Rightarrow> ('k, 'v) gomap" where
  "copyMap m = foldl (\<lambda>acc (k, v). AList.update k v acc) [] m"

text \<open>The two nested \<^verbatim>\<open>range\<close> loops, with \<^verbatim>\<open>ipInfos\<close> as the accumulator.\<close>

fun collectPods ::
  "(string, string) gomap \<Rightarrow> (string, PodInfo) gomap \<Rightarrow> IpInfo list \<Rightarrow> IpInfo list" where
  "collectPods selectorMap [] ipInfos = ipInfos"
| "collectPods selectorMap ((name, podInfo) # namespaceData) ipInfos =
     collectPods selectorMap namespaceData
       (if matchesSelector (Labels podInfo) selectorMap
        then ipInfos @ [\<lparr>IPv4 = PodInfo.IPv4 podInfo, IPv6 = PodInfo.IPv6 podInfo\<rparr>]
        else ipInfos)"

fun collectNamespaces ::
  "(string, string) gomap \<Rightarrow> (string, (string, PodInfo) gomap) gomap \<Rightarrow> IpInfo list
     \<Rightarrow> IpInfo list" where
  "collectNamespaces selectorMap [] ipInfos = ipInfos"
| "collectNamespaces selectorMap ((namespace, namespaceData) # rest) ipInfos =
     collectNamespaces selectorMap rest (collectPods selectorMap namespaceData ipInfos)"

text \<open>\<^verbatim>\<open>sort.Slice\<close> is the Go library's; it promises a permutation of the slice that is
  in order for \<^verbatim>\<open>less\<close>, and nothing on the order of elements that compare equal. The
  model is one such sort, by insertion; the theorems use the promise only.\<close>

fun insertBy :: "('a \<Rightarrow> 'a \<Rightarrow> bool) \<Rightarrow> 'a \<Rightarrow> 'a list \<Rightarrow> 'a list" where
  "insertBy lt x [] = [x]"
| "insertBy lt x (y # ys) = (if lt x y then x # y # ys else y # insertBy lt x ys)"

definition sortSlice :: "('a \<Rightarrow> 'a \<Rightarrow> bool) \<Rightarrow> 'a list \<Rightarrow> 'a list" where
  "sortSlice lt xs = foldr (insertBy lt) xs []"

text \<open>\<open>ipString s\<close> stands for \<^verbatim>\<open>net.ParseIP(s).String()\<close>, a function of the Go library
  and a parameter here. Go compares strings byte by byte, which is the lexicographic
  order of \<open>string\<close>. The selector comes as a pointer; \<open>None\<close> is nil.\<close>

definition GetIPWithLabelSelector ::
  "(string \<Rightarrow> string) \<Rightarrow> PodStore \<Rightarrow> LabelSelector option \<Rightarrow> error + IpInfo list" where
  "GetIPWithLabelSelector ipString ps selector =
     (case selector of
        None \<Rightarrow> Inl NilPointerDereference
      | Some sel \<Rightarrow>
          (let selectorMap = copyMap (MatchLabels sel);
               ipInfos = collectNamespaces selectorMap (data ps) []
           in Inr (sortSlice (\<lambda>a b. ipString (IPv4 a) < ipString (IPv4 b)) ipInfos)))"

text \<open>A history of calls on one store.\<close>

datatype storeOp =
    OpAddPod string string "(string, string) gomap" string string
  | OpDeletePod string string

fun applyStoreOp :: "PodStore \<Rightarrow> storeOp \<Rightarrow> PodStore" where
  "applyStoreOp ps (OpAddPod namespace name labels ipv4 ipv6) =
     AddPod ps namespace name labels ipv4 ipv6"
| "applyStoreOp ps (OpDeletePod namespace name) = DeletePod ps namespace name"

definition runStore :: "PodStore \<Rightarrow> storeOp list \<Rightarrow> PodStore" where
  "runStore ps cs = foldl applyStoreOp ps cs"

text \<open>What the store holds at a namespace and a name, and the Pods it holds.\<close>

definition podAt :: "PodStore \<Rightarrow> string \<Rightarrow> string \<Rightarrow> PodInfo option" where
  "podAt ps namespace name =
     (case map_of (data ps) namespace of None \<Rightarrow> None | Some m \<Rightarrow> map_of m name)"

definition storedPods :: "PodStore \<Rightarrow> PodInfo list" where
  "storedPods ps = concat (map (\<lambda>(namespace, m). map snd m) (data ps))"

definition ipInfoOf :: "PodInfo \<Rightarrow> IpInfo" where
  "ipInfoOf podInfo = \<lparr>IPv4 = PodInfo.IPv4 podInfo, IPv6 = PodInfo.IPv6 podInfo\<rparr>"

text \<open>The selector as the specification words it: every pair of the selector is a
  label of the Pod, the key present with exactly that value.\<close>

definition specMatches :: "(string, string) gomap \<Rightarrow> (string, string) gomap \<Rightarrow> bool" where
  "specMatches labels selector = list_all (\<lambda>(k, v). map_of labels k = Some v) selector"

text \<open>The criterion of the query: the code's matcher on the copied selector.\<close>

definition selects :: "LabelSelector \<Rightarrow> PodInfo \<Rightarrow> bool" where
  "selects sel podInfo = matchesSelector (Labels podInfo) (copyMap (MatchLabels sel))"

text \<open>No namespace of the outer map holds an empty inner map.\<close>

definition noEmptyNamespace :: "PodStore \<Rightarrow> bool" where
  "noEmptyNamespace ps = (\<forall>namespace m. map_of (data ps) namespace = Some m \<longrightarrow> m \<noteq> [])"

text \<open>The store that \<^verbatim>\<open>main\<close> of the PodStore file builds.\<close>

definition mainStore :: PodStore where
  "mainStore = runStore NewPodStore
     [OpAddPod ''default'' ''pod1'' [(''app'', ''nginx''), (''env'', ''prod'')]
        ''192.168.1.1'' ''fe80::1'',
      OpAddPod ''default'' ''pod2'' [(''app'', ''nginx''), (''env'', ''dev'')]
        ''192.168.1.2'' [],
      OpAddPod ''kube-system'' ''pod3'' [(''app'', ''kube-dns'')] [] ''fe80::2'']"

section \<open>Association lists and inverse maps\<close>

lemma cutFirst_remove1: "cutFirst key ks = remove1 key ks"
  by (induction ks) auto

lemma keys_delete: "fst ` set (AList.delete k al) = fst ` set al - {k}"
proof -
  have "set (map fst (AList.delete k al)) = set (map fst al) - {k}"
    by (simp add: delete_keys)
  then show ?thesis by simp
qed

lemma length_delete_present:
  assumes "distinct (map fst al)" and "k \<in> fst ` set al"
  shows "Suc (length (AList.delete k al)) = length al"
proof -
  have "length (AList.delete k al) = length (map fst (AList.delete k al))" by simp
  also have "\<dots> = length (remove1 k (map fst al))"
    using assms(1) by (simp add: delete_keys distinct_remove1_removeAll)
  also have "\<dots> = length al - 1"
    using assms(2) by (simp add: length_remove1)
  finally show ?thesis using assms(2) by (cases al) auto
qed

lemma length_update_present: "k \<in> fst ` set al \<Longrightarrow> length (AList.update k v al) = length al"
  by (induction al) auto

lemma length_update_absent: "k \<notin> fst ` set al \<Longrightarrow> length (AList.update k v al) = Suc (length al)"
  by (induction al) auto

lemma map_of_keys: "(map_of al k = None) = (k \<notin> fst ` set al)"
  by (simp add: map_of_eq_None_iff)

lemma orderTracks_created: "NewPodRegistry cap = Inr pr \<Longrightarrow> orderTracks pr"
  by (auto simp: NewPodRegistry_def orderTracks_def split: if_splits)

lemma orderTracks_deleteInternal: "orderTracks pr \<Longrightarrow> orderTracks (deleteInternal pr key)"
  by (auto simp: orderTracks_def deleteInternal_def removeFromKeyOrder_def cutFirst_remove1
      distinct_delete keys_delete split: option.splits)

lemma orderTracks_addEntry:
  "orderTracks pr \<Longrightarrow> map_of (keyToValue pr) key = None \<Longrightarrow> orderTracks (addEntry pr key val)"
  by (auto simp: orderTracks_def addEntry_def distinct_update dom_update map_of_keys)

lemma deleteInternal_keeps_absent:
  "map_of (keyToValue pr) key = None \<Longrightarrow> map_of (keyToValue (deleteInternal pr k)) key = None"
  by (auto simp: deleteInternal_def removeFromKeyOrder_def delete_conv' split: option.splits)

lemma Set_present:
  "map_of (keyToValue pr) key = Some old \<Longrightarrow>
     Set pr key val =
       Inr (pr\<lparr>keyToValue := AList.update key val (keyToValue pr),
               valueToKey := AList.update val key (AList.delete old (valueToKey pr)),
               keyOrder := cutFirst key (keyOrder pr) @ [key]\<rparr>)"
  by (simp add: Set_def removeFromKeyOrder_def)

lemma Set_absent:
  "map_of (keyToValue pr) key = None \<Longrightarrow>
     Set pr key val =
       (if capacity pr \<le> int (length (keyToValue pr)) then
          (case keyOrder pr of
             [] \<Rightarrow> Inl IndexOutOfRange
           | oldestKey # ks \<Rightarrow> Inr (addEntry (deleteInternal pr oldestKey) key val))
        else Inr (addEntry pr key val))"
  by (simp add: Set_def)

lemma orderTracks_Set:
  assumes "orderTracks pr" and "Set pr key val = Inr pr'"
  shows "orderTracks pr'"
proof (cases "map_of (keyToValue pr) key")
  case None
  then show ?thesis
    using assms
    by (auto simp: Set_absent orderTracks_addEntry orderTracks_deleteInternal
        deleteInternal_keeps_absent split: if_splits list.splits)
next
  case (Some old)
  then have present: "key \<in> fst ` set (keyToValue pr)"
    by (metis map_of_keys option.distinct(1))
  have pr': "pr' = pr\<lparr>keyToValue := AList.update key val (keyToValue pr),
               valueToKey := AList.update val key (AList.delete old (valueToKey pr)),
               keyOrder := cutFirst key (keyOrder pr) @ [key]\<rparr>"
    using assms(2) Some by (simp add: Set_present)
  have keys: "fst ` set (AList.update key val (keyToValue pr)) = fst ` set (keyToValue pr)"
    using present by (auto simp: dom_update)
  show ?thesis
    using assms(1) present unfolding pr' orderTracks_def
    by (simp add: keys cutFirst_remove1 distinct_update) auto
qed

lemma reachable_orderTracks: "reachable pr \<Longrightarrow> orderTracks pr"
  by (induction rule: reachable.induct)
    (auto simp: orderTracks_created orderTracks_Set orderTracks_deleteInternal Delete_def)

lemma Set_capacity: "Set pr key val = Inr pr' \<Longrightarrow> capacity pr' = capacity pr"
  by (auto simp: Set_def Let_def addEntry_def deleteInternal_def removeFromKeyOrder_def
      split: option.splits if_splits list.splits)

lemma Delete_capacity: "capacity (Delete pr key) = capacity pr"
  by (auto simp: Delete_def deleteInternal_def removeFromKeyOrder_def split: option.splits)

lemma reachable_capacity: "reachable pr \<Longrightarrow> Count pr \<le> capacity pr"
proof (induction rule: reachable.induct)
  case (created cap pr)
  then show ?case by (auto simp: NewPodRegistry_def Count_def split: if_splits)
next
  case (after_Set pr key val pr')
  have ot: "orderTracks pr" using after_Set.hyps(1) by (rule reachable_orderTracks)
  show ?case
  proof (cases "map_of (keyToValue pr) key")
    case (Some old)
    then have "key \<in> fst ` set (keyToValue pr)"
      by (metis map_of_keys option.distinct(1))
    then have "length (AList.update key val (keyToValue pr)) = length (keyToValue pr)"
      by (rule length_update_present)
    then show ?thesis
      using after_Set.IH after_Set.hyps(2) Some
      by (auto simp: Set_present Count_def)
  next
    case None
    then have absent: "key \<notin> fst ` set (keyToValue pr)" by (simp add: map_of_keys)
    show ?thesis
    proof (cases "capacity pr \<le> int (length (keyToValue pr))")
      case False
      then show ?thesis
        using after_Set.hyps(2) None absent
        by (auto simp: Set_absent Count_def addEntry_def length_update_absent)
    next
      case True
      then obtain oldest ks where ko: "keyOrder pr = oldest # ks"
        and pr': "pr' = addEntry (deleteInternal pr oldest) key val"
        using after_Set.hyps(2) None by (auto simp: Set_absent split: list.splits)
      have "oldest \<in> fst ` set (keyToValue pr)"
        using ot ko unfolding orderTracks_def by (metis list.set_intros(1))
      then obtain ov where ov: "map_of (keyToValue pr) oldest = Some ov"
        by (metis map_of_keys not_Some_eq)
      have len: "Suc (length (AList.delete oldest (keyToValue pr))) = length (keyToValue pr)"
        using ot \<open>oldest \<in> fst ` set (keyToValue pr)\<close> unfolding orderTracks_def
        by (simp add: length_delete_present)
      have "key \<notin> fst ` set (AList.delete oldest (keyToValue pr))"
        using absent by (simp add: keys_delete)
      then have "length (keyToValue pr') = length (keyToValue pr)"
        using len ov unfolding pr'
        by (simp add: addEntry_def deleteInternal_def removeFromKeyOrder_def length_update_absent)
      then show ?thesis
        using after_Set.IH Set_capacity[OF after_Set.hyps(2)] by (simp add: Count_def)
    qed
  qed
next
  case (after_Delete pr key)
  have "length (AList.delete key (keyToValue pr)) \<le> length (keyToValue pr)"
    by (rule length_delete_le)
  then show ?case
    using after_Delete.IH
    by (auto simp: Delete_def deleteInternal_def removeFromKeyOrder_def Count_def
        split: option.splits)
qed

lemma Set_returns:
  assumes "orderTracks pr" and "0 < capacity pr"
  shows "\<exists>pr'. Set pr key val = Inr pr'"
proof (cases "map_of (keyToValue pr) key")
  case (Some old)
  then show ?thesis by (simp add: Set_present)
next
  case None
  show ?thesis
  proof (cases "keyOrder pr")
    case Nil
    then have "keyToValue pr = []" using assms(1) by (simp add: orderTracks_def)
    then show ?thesis using None assms(2) by (simp add: Set_absent)
  next
    case (Cons k ks)
    then show ?thesis using None by (simp add: Set_absent)
  qed
qed

lemma run_reachable: "reachable pr \<Longrightarrow> run pr cs = Inr pr' \<Longrightarrow> reachable pr'"
proof (induction cs arbitrary: pr)
  case Nil
  then show ?case by simp
next
  case (Cons c cs)
  show ?case
  proof (cases c)
    case (OpSet key val)
    then obtain pr1 where s: "Set pr key val = Inr pr1" and r: "run pr1 cs = Inr pr'"
      using Cons.prems(2) by (auto split: sum.splits)
    have "reachable pr1" using Cons.prems(1) s by (rule reachable.after_Set)
    then show ?thesis using r by (rule Cons.IH)
  next
    case (OpDelete key)
    then have r: "run (Delete pr key) cs = Inr pr'" using Cons.prems(2) by simp
    have "reachable (Delete pr key)" using Cons.prems(1) by (rule reachable.after_Delete)
    then show ?thesis using r by (rule Cons.IH)
  qed
qed

lemma run_capacity: "run pr cs = Inr pr' \<Longrightarrow> capacity pr' = capacity pr"
proof (induction cs arbitrary: pr)
  case Nil
  then show ?case by simp
next
  case (Cons c cs)
  then show ?case
    by (cases c) (auto split: sum.splits simp: Set_capacity Delete_capacity)
qed

lemma run_returns:
  "reachable pr \<Longrightarrow> 0 < capacity pr \<Longrightarrow> \<exists>pr'. run pr cs = Inr pr'"
proof (induction cs arbitrary: pr)
  case Nil
  then show ?case by simp
next
  case (Cons c cs)
  show ?case
  proof (cases c)
    case (OpSet key val)
    obtain pr1 where s: "Set pr key val = Inr pr1"
      using Set_returns[OF reachable_orderTracks[OF Cons.prems(1)] Cons.prems(2)] by blast
    have "reachable pr1" using Cons.prems(1) s by (rule reachable.after_Set)
    moreover have "0 < capacity pr1" using s Cons.prems(2) by (simp add: Set_capacity)
    ultimately obtain pr' where "run pr1 cs = Inr pr'" using Cons.IH by blast
    then show ?thesis using OpSet s by simp
  next
    case (OpDelete key)
    have "reachable (Delete pr key)" using Cons.prems(1) by (rule reachable.after_Delete)
    moreover have "0 < capacity (Delete pr key)" using Cons.prems(2) by (simp add: Delete_capacity)
    ultimately obtain pr' where "run (Delete pr key) cs = Inr pr'" using Cons.IH by blast
    then show ?thesis using OpDelete by simp
  qed
qed

lemma inverse_delete:
  assumes "\<forall>k v. (f k = Some v) = (g v = Some k)" and "f k0 = Some v0"
  shows "\<forall>k v. ((f(k0 := None)) k = Some v) = ((g(v0 := None)) v = Some k)"
proof (intro allI)
  fix k v
  have a: "(f k = Some v) = (g v = Some k)" using assms(1) by blast
  have b: "g v0 = Some k0" using assms by blast
  have c: "g v \<noteq> Some k0" if "v \<noteq> v0"
  proof
    assume "g v = Some k0"
    then have "f k0 = Some v" using assms(1) by blast
    then show False using assms(2) that by simp
  qed
  show "((f(k0 := None)) k = Some v) = ((g(v0 := None)) v = Some k)"
    using a b c by (cases "k = k0"; cases "v = v0") auto
qed

lemma inverse_add:
  assumes "\<forall>k v. (f k = Some v) = (g v = Some k)" and "f key = None" and "g val = None"
  shows "\<forall>k v. ((f(key \<mapsto> val)) k = Some v) = ((g(val \<mapsto> key)) v = Some k)"
proof (intro allI)
  fix k v
  have a: "(f k = Some v) = (g v = Some k)" using assms(1) by blast
  have b: "g v \<noteq> Some key"
  proof
    assume "g v = Some key"
    then have "f key = Some v" using assms(1) by blast
    then show False using assms(2) by simp
  qed
  have c: "f k \<noteq> Some val"
  proof
    assume "f k = Some val"
    then have "g val = Some k" using assms(1) by blast
    then show False using assms(3) by simp
  qed
  show "((f(key \<mapsto> val)) k = Some v) = ((g(val \<mapsto> key)) v = Some k)"
    using a b c by (cases "k = key"; cases "v = val") auto
qed

lemma inverse_rebind:
  assumes "\<forall>k v. (f k = Some v) = (g v = Some k)" and "f key = Some old"
    and "g val = None \<or> g val = Some key"
  shows "\<forall>k v. ((f(key \<mapsto> val)) k = Some v) = (((g(old := None))(val \<mapsto> key)) v = Some k)"
proof (intro allI)
  fix k v
  have a: "(f k = Some v) = (g v = Some k)" using assms(1) by blast
  have b: "g v \<noteq> Some key" if "v \<noteq> old"
  proof
    assume "g v = Some key"
    then have "f key = Some v" using assms(1) by blast
    then show False using assms(2) that by simp
  qed
  have c: "f k \<noteq> Some val" if "k \<noteq> key"
  proof
    assume "f k = Some val"
    then have "g val = Some k" using assms(1) by blast
    then show False using assms(3) that by auto
  qed
  have d: "g old \<noteq> Some k" if "k \<noteq> key"
  proof
    assume "g old = Some k"
    moreover have "g old = Some key" using assms(1,2) by blast
    ultimately show False using that by simp
  qed
  show "((f(key \<mapsto> val)) k = Some v) = (((g(old := None))(val \<mapsto> key)) v = Some k)"
    using a b c d by (cases "k = key"; cases "v = val"; cases "v = old") auto
qed

lemma consistent_created: "NewPodRegistry cap = Inr pr \<Longrightarrow> consistent pr"
  by (auto simp: consistent_def orderTracks_created)
     (auto simp: NewPodRegistry_def mutualInverses_def split: if_splits)

lemma mutualInverses_deleteInternal:
  "mutualInverses pr \<Longrightarrow> mutualInverses (deleteInternal pr key)"
proof (cases "map_of (keyToValue pr) key")
  case None
  assume "mutualInverses pr"
  then show ?thesis using None by (simp add: deleteInternal_def)
next
  case (Some v0)
  assume "mutualInverses pr"
  then have "\<forall>k v. (map_of (keyToValue pr) k = Some v) = (map_of (valueToKey pr) v = Some k)"
    by (simp add: mutualInverses_def)
  from inverse_delete[OF this Some] show ?thesis
    using Some
    by (simp add: mutualInverses_def deleteInternal_def removeFromKeyOrder_def delete_conv')
qed

lemma distinct_values_deleteInternal:
  "distinct (map fst (valueToKey pr)) \<Longrightarrow> distinct (map fst (valueToKey (deleteInternal pr key)))"
  by (auto simp: deleteInternal_def removeFromKeyOrder_def distinct_delete split: option.splits)

lemma consistent_deleteInternal: "consistent pr \<Longrightarrow> consistent (deleteInternal pr key)"
  by (simp add: consistent_def orderTracks_deleteInternal mutualInverses_deleteInternal
      distinct_values_deleteInternal)

lemma valueFree_deleteInternal:
  "valueFree pr key val \<Longrightarrow> valueFree (deleteInternal pr k) key val"
  by (auto simp: valueFree_def deleteInternal_def removeFromKeyOrder_def delete_conv'
      split: option.splits)

lemma mutualInverses_addEntry:
  assumes "mutualInverses pr" and "map_of (keyToValue pr) key = None" and "valueFree pr key val"
  shows "mutualInverses (addEntry pr key val)"
proof -
  have inv: "\<forall>k v. (map_of (keyToValue pr) k = Some v) = (map_of (valueToKey pr) v = Some k)"
    using assms(1) by (simp add: mutualInverses_def)
  have "map_of (valueToKey pr) val = None"
  proof (cases "map_of (valueToKey pr) val")
    case None
    then show ?thesis .
  next
    case (Some k)
    then have "k = key" using assms(3) by (simp add: valueFree_def)
    then have "map_of (keyToValue pr) key = Some val" using Some inv by simp
    then show ?thesis using assms(2) by simp
  qed
  from inverse_add[OF inv assms(2) this] show ?thesis
    by (simp add: mutualInverses_def addEntry_def update_conv')
qed

lemma consistent_addEntry:
  assumes "consistent pr" and "map_of (keyToValue pr) key = None" and "valueFree pr key val"
  shows "consistent (addEntry pr key val)"
proof -
  have "distinct (map fst (valueToKey (addEntry pr key val)))"
    using assms(1) by (simp add: consistent_def addEntry_def distinct_update)
  then show ?thesis
    using assms by (simp add: consistent_def orderTracks_addEntry mutualInverses_addEntry)
qed

lemma consistent_Set:
  assumes "consistent pr" and "valueFree pr key val" and "Set pr key val = Inr pr'"
  shows "consistent pr'"
proof (cases "map_of (keyToValue pr) key")
  case None
  then show ?thesis
    using assms
    by (auto simp: Set_absent consistent_addEntry consistent_deleteInternal
        deleteInternal_keeps_absent valueFree_deleteInternal split: if_splits list.splits)
next
  case (Some old)
  have inv: "\<forall>k v. (map_of (keyToValue pr) k = Some v) = (map_of (valueToKey pr) v = Some k)"
    using assms(1) by (simp add: consistent_def mutualInverses_def)
  have free: "map_of (valueToKey pr) val = None \<or> map_of (valueToKey pr) val = Some key"
    using assms(2) by (auto simp: valueFree_def split: option.splits)
  have pr': "pr' = pr\<lparr>keyToValue := AList.update key val (keyToValue pr),
               valueToKey := AList.update val key (AList.delete old (valueToKey pr)),
               keyOrder := cutFirst key (keyOrder pr) @ [key]\<rparr>"
    using assms(3) Some by (simp add: Set_present)
  have "mutualInverses pr'"
    using inverse_rebind[OF inv Some free]
    unfolding pr' by (simp add: mutualInverses_def update_conv' delete_conv')
  moreover have "distinct (map fst (valueToKey pr'))"
    using assms(1) unfolding pr' by (simp add: consistent_def distinct_update distinct_delete)
  moreover have "orderTracks pr'"
    using assms(1,3) by (auto simp: consistent_def intro: orderTracks_Set)
  ultimately show ?thesis by (simp add: consistent_def)
qed

lemma length_keys: "distinct (map fst al) \<Longrightarrow> length al = card (dom (map_of al))"
proof -
  assume d: "distinct (map fst al)"
  have "card (dom (map_of al)) = card (set (map fst al))"
    by (simp add: dom_map_of_conv_image_fst)
  also have "\<dots> = length (map fst al)" using d by (rule distinct_card)
  finally show ?thesis by simp
qed

lemma inverse_card:
  assumes "\<forall>k v. (f k = Some v) = (g v = Some k)"
  shows "card (dom f) = card (dom g)"
proof (rule bij_betw_same_card)
  show "bij_betw (\<lambda>k. the (f k)) (dom f) (dom g)"
    unfolding bij_betw_def
  proof
    show "inj_on (\<lambda>k. the (f k)) (dom f)"
    proof (rule inj_onI)
      fix x y
      assume "x \<in> dom f" and "y \<in> dom f" and e: "the (f x) = the (f y)"
      then obtain v w where v: "f x = Some v" and w: "f y = Some w" by blast
      then have "v = w" using e by simp
      then have "g v = Some x" and "g v = Some y" using v w assms by blast+
      then show "x = y" by simp
    qed
    show "(\<lambda>k. the (f k)) ` dom f = dom g"
    proof (rule set_eqI)
      fix v
      show "(v \<in> (\<lambda>k. the (f k)) ` dom f) = (v \<in> dom g)"
      proof
        assume "v \<in> (\<lambda>k. the (f k)) ` dom f"
        then obtain k w where "f k = Some w" and "v = the (f k)" by blast
        then have "f k = Some v" by simp
        then have "g v = Some k" using assms by blast
        then show "v \<in> dom g" by blast
      next
        assume "v \<in> dom g"
        then obtain k where "g v = Some k" by blast
        then have k: "f k = Some v" using assms by blast
        then have "k \<in> dom f" and "the (f k) = v" by auto
        then show "v \<in> (\<lambda>k. the (f k)) ` dom f" by blast
      qed
    qed
  qed
qed

lemma consistent_sameSizes: "consistent pr \<Longrightarrow> sameSizes pr"
proof -
  assume c: "consistent pr"
  then have inv: "\<forall>k v. (map_of (keyToValue pr) k = Some v) = (map_of (valueToKey pr) v = Some k)"
    by (simp add: consistent_def mutualInverses_def)
  have "length (keyToValue pr) = card (dom (map_of (keyToValue pr)))"
    using c by (simp add: consistent_def orderTracks_def length_keys)
  also have "\<dots> = card (dom (map_of (valueToKey pr)))" using inv by (rule inverse_card)
  also have "\<dots> = length (valueToKey pr)"
    using c by (simp add: consistent_def length_keys)
  finally have a: "length (keyToValue pr) = length (valueToKey pr)" .
  have d: "distinct (keyOrder pr)" "distinct (map fst (keyToValue pr))"
    "set (keyOrder pr) = set (map fst (keyToValue pr))"
    using c by (simp_all add: consistent_def orderTracks_def)
  have "length (keyOrder pr) = card (set (keyOrder pr))"
    using d(1) by (simp add: distinct_card)
  also have "\<dots> = card (set (map fst (keyToValue pr)))"
    using d(3) by (simp only:)
  also have "\<dots> = length (map fst (keyToValue pr))"
    using d(2) by (rule distinct_card)
  finally have "length (keyOrder pr) = length (keyToValue pr)" by simp
  then show ?thesis using a by (simp add: sameSizes_def)
qed

lemma run_consistent:
  "consistent pr \<Longrightarrow> uniqueValues pr cs \<Longrightarrow> run pr cs = Inr pr' \<Longrightarrow> consistent pr'"
proof (induction cs arbitrary: pr)
  case Nil
  then show ?case by simp
next
  case (Cons c cs)
  show ?case
  proof (cases c)
    case (OpSet key val)
    then obtain pr1 where s: "Set pr key val = Inr pr1" and r: "run pr1 cs = Inr pr'"
      using Cons.prems(3) by (auto split: sum.splits)
    have f: "valueFree pr key val" and u: "uniqueValues pr1 cs"
      using Cons.prems(2) OpSet s by auto
    have "consistent pr1" using Cons.prems(1) f s by (rule consistent_Set)
    then show ?thesis using u r by (rule Cons.IH)
  next
    case (OpDelete key)
    then have r: "run (Delete pr key) cs = Inr pr'" and u: "uniqueValues (Delete pr key) cs"
      using Cons.prems by auto
    have "consistent (Delete pr key)"
      using Cons.prems(1) by (simp add: Delete_def consistent_deleteInternal)
    then show ?thesis using u r by (rule Cons.IH)
  qed
qed

lemma filter_absent: "key \<notin> set ks \<Longrightarrow> filter (\<lambda>k. k \<noteq> key) ks = ks"
  by (induction ks) auto

lemma cutFirst_distinct: "distinct ks \<Longrightarrow> cutFirst key ks = filter (\<lambda>k. k \<noteq> key) ks"
  by (induction ks) (auto simp: filter_absent)

lemma cutFirst_absent: "distinct ks \<Longrightarrow> key \<notin> set (cutFirst key ks)"
  by (simp add: cutFirst_distinct)

lemma scenario_refresh:
  assumes "distinct [a, b, c, d]"
  shows "\<exists>pr0 pr. NewPodRegistry 3 = Inr pr0
         \<and> run pr0 [OpSet a va, OpSet b vb, OpSet c vc, OpSet a va', OpSet d vd] = Inr pr
         \<and> map_of (keyToValue pr) b = None
         \<and> map_of (keyToValue pr) a = Some va'
         \<and> fst ` set (keyToValue pr) = {a, c, d}
         \<and> keyOrder pr = [c, a, d]"
proof -
  have ne: "a \<noteq> b" "a \<noteq> c" "a \<noteq> d" "b \<noteq> a" "b \<noteq> c" "b \<noteq> d"
    "c \<noteq> a" "c \<noteq> b" "c \<noteq> d" "d \<noteq> a" "d \<noteq> b" "d \<noteq> c"
    using assms by auto
  show ?thesis
    using ne
    by (simp add: NewPodRegistry_def Set_def deleteInternal_def removeFromKeyOrder_def
        addEntry_def split del: if_split)
qed

lemma scenario_fifo:
  assumes "distinct [a, b, c, d]"
  shows "\<exists>pr0 pr. NewPodRegistry 3 = Inr pr0
         \<and> run pr0 [OpSet a va, OpSet b vb, OpSet c vc, OpSet d vd] = Inr pr
         \<and> map_of (keyToValue pr) a = None
         \<and> set (keyToValue pr) = {(b, vb), (c, vc), (d, vd)}
         \<and> keyOrder pr = [b, c, d] \<and> Count pr = 3"
proof -
  have ne: "a \<noteq> b" "a \<noteq> c" "a \<noteq> d" "b \<noteq> a" "b \<noteq> c" "b \<noteq> d"
    "c \<noteq> a" "c \<noteq> b" "c \<noteq> d" "d \<noteq> a" "d \<noteq> b" "d \<noteq> c"
    using assms by auto
  show ?thesis
    using ne
    by (simp add: NewPodRegistry_def Set_def deleteInternal_def removeFromKeyOrder_def
        addEntry_def Count_def split del: if_split)
qed

lemma evict_step:
  assumes "reachable pr" and "map_of (keyToValue pr) key = None"
    and "capacity pr \<le> Count pr" and "0 < capacity pr"
  shows "\<exists>oldest ks ov pr'. keyOrder pr = oldest # ks
         \<and> map_of (keyToValue pr) oldest = Some ov
         \<and> Set pr key val = Inr pr'
         \<and> map_of (keyToValue pr') = ((map_of (keyToValue pr))(oldest := None))(key \<mapsto> val)
         \<and> map_of (valueToKey pr') = ((map_of (valueToKey pr))(ov := None))(val \<mapsto> key)
         \<and> keyOrder pr' = ks @ [key]
         \<and> Count pr' = Count pr"
proof -
  have ot: "orderTracks pr" using assms(1) by (rule reachable_orderTracks)
  have "keyToValue pr \<noteq> []" using assms(3,4) by (auto simp: Count_def)
  then have "keyOrder pr \<noteq> []" using ot by (auto simp: orderTracks_def)
  then obtain oldest ks where ko: "keyOrder pr = oldest # ks" by (cases "keyOrder pr") auto
  have present: "oldest \<in> fst ` set (keyToValue pr)"
    using ot ko unfolding orderTracks_def by (metis list.set_intros(1))
  then obtain ov where ov: "map_of (keyToValue pr) oldest = Some ov"
    by (metis map_of_keys not_Some_eq)
  define pr' where "pr' = addEntry (deleteInternal pr oldest) key val"
  have s: "Set pr key val = Inr pr'"
    using assms(2,3) ko by (simp add: Set_absent Count_def pr'_def)
  have len: "Suc (length (AList.delete oldest (keyToValue pr))) = length (keyToValue pr)"
    using ot present unfolding orderTracks_def by (simp add: length_delete_present)
  have "key \<notin> fst ` set (AList.delete oldest (keyToValue pr))"
    using assms(2) by (simp add: keys_delete map_of_keys)
  then have c: "Count pr' = Count pr"
    using len ov unfolding pr'_def
    by (simp add: Count_def addEntry_def deleteInternal_def removeFromKeyOrder_def
        length_update_absent)
  have "map_of (keyToValue pr') = ((map_of (keyToValue pr))(oldest := None))(key \<mapsto> val)"
    and "map_of (valueToKey pr') = ((map_of (valueToKey pr))(ov := None))(val \<mapsto> key)"
    and "keyOrder pr' = ks @ [key]"
    using ov ko unfolding pr'_def
    by (simp_all add: addEntry_def deleteInternal_def removeFromKeyOrder_def update_conv'
        delete_conv')
  then show ?thesis using ko ov s c by blast
qed

lemma uniqueValues_take: "uniqueValues pr cs \<Longrightarrow> uniqueValues pr (take n cs)"
proof (induction cs arbitrary: pr n)
  case Nil
  then show ?case by simp
next
  case (Cons c cs)
  show ?case
  proof (cases n)
    case 0
    then show ?thesis by simp
  next
    case (Suc m)
    show ?thesis
    proof (cases c)
      case (OpSet key val)
      then show ?thesis
        using Cons.prems Suc by (auto split: sum.splits intro: Cons.IH)
    next
      case (OpDelete key)
      then show ?thesis
        using Cons.prems Suc by (auto intro: Cons.IH)
    qed
  qed
qed

lemmas registry_defs =
  NewPodRegistry_def Set_def Delete_def deleteInternal_def removeFromKeyOrder_def addEntry_def
  GetValueByKey_def GetKeyByValue_def Count_def valueFree_def
  key1_def key2_def key3_def key4_def value1_def value2_def value3_def value4_def

section \<open>The registry's invariants\<close>

text \<open>
  C1, as the specification states it: after every sequence of \<^verbatim>\<open>Set\<close> and \<^verbatim>\<open>Delete\<close> calls
  on a new registry the two maps are inverse to each other and have the size of the
  eviction order. The code does not keep this when two keys are given one value: after
  \<^verbatim>\<open>Set(key1, value1)\<close> and \<^verbatim>\<open>Set(key2, value1)\<close> the value of \<open>key1\<close> leads back to
  \<open>key2\<close>, and the forward map holds two entries, the reverse map one.
\<close>

theorem bijection_fails_on_shared_value:
  "NewPodRegistry 3 = Inr \<lparr>keyToValue = [], valueToKey = [], keyOrder = [], capacity = 3\<rparr>
   \<and> run \<lparr>keyToValue = [], valueToKey = [], keyOrder = [], capacity = 3\<rparr>
         [OpSet key1 value1, OpSet key2 value1]
       = Inr \<lparr>keyToValue = [(key1, value1), (key2, value1)], valueToKey = [(value1, key2)],
               keyOrder = [key1, key2], capacity = 3\<rparr>
   \<and> GetValueByKey \<lparr>keyToValue = [(key1, value1), (key2, value1)],
         valueToKey = [(value1, key2)], keyOrder = [key1, key2], capacity = 3\<rparr> key1
       = (value1, True)
   \<and> GetKeyByValue \<lparr>keyToValue = [(key1, value1), (key2, value1)],
         valueToKey = [(value1, key2)], keyOrder = [key1, key2], capacity = 3\<rparr> value1
       = (key2, True)
   \<and> key2 \<noteq> key1
   \<and> \<not> sameSizes \<lparr>keyToValue = [(key1, value1), (key2, value1)],
         valueToKey = [(value1, key2)], keyOrder = [key1, key2], capacity = 3\<rparr>"
  by (simp add: registry_defs sameSizes_def)

text \<open>
  C1, amended: take a sequence of \<^verbatim>\<open>Set\<close> and \<^verbatim>\<open>Delete\<close> calls on a new registry in
  which no \<^verbatim>\<open>Set\<close> passes a value that is bound to another key at that moment
  (\<open>uniqueValues\<close>). After each of its prefixes, which are the points of observation,
  the two maps are mutual inverses, so \<^verbatim>\<open>GetKeyByValue(GetValueByKey(k))\<close> is \<open>k\<close> for
  every key present, and the forward map, the reverse map and the eviction order have
  the same size.
\<close>

theorem bijection_with_unique_values:
  "NewPodRegistry cap = Inr pr0 \<Longrightarrow> uniqueValues pr0 cs \<Longrightarrow> run pr0 (take n cs) = Inr pr \<Longrightarrow>
     mutualInverses pr \<and> sameSizes pr \<and>
     (\<forall>k v. GetValueByKey pr k = (v, True) \<longrightarrow> GetKeyByValue pr v = (k, True))"
proof -
  assume "NewPodRegistry cap = Inr pr0" and "uniqueValues pr0 cs"
    and r: "run pr0 (take n cs) = Inr pr"
  then have "consistent pr0" and u: "uniqueValues pr0 (take n cs)"
    by (simp_all add: consistent_created uniqueValues_take)
  then have c: "consistent pr" using r by (rule run_consistent)
  then have m: "mutualInverses pr" by (simp add: consistent_def)
  have "\<forall>k v. GetValueByKey pr k = (v, True) \<longrightarrow> GetKeyByValue pr v = (k, True)"
    using m by (auto simp: mutualInverses_def GetValueByKey_def GetKeyByValue_def
        split: option.splits)
  then show ?thesis using m consistent_sameSizes[OF c] by simp
qed

theorem bijection_with_unique_values_witness:
  "mutualInverses \<lparr>keyToValue = [(key1, value3), (key2, value2)],
      valueToKey = [(value2, key2), (value3, key1)], keyOrder = [key2, key1], capacity = 3\<rparr>
   \<and> sameSizes \<lparr>keyToValue = [(key1, value3), (key2, value2)],
      valueToKey = [(value2, key2), (value3, key1)], keyOrder = [key2, key1], capacity = 3\<rparr>
   \<and> GetKeyByValue \<lparr>keyToValue = [(key1, value3), (key2, value2)],
      valueToKey = [(value2, key2), (value3, key1)], keyOrder = [key2, key1], capacity = 3\<rparr>
        value3 = (key1, True)"
  using bijection_with_unique_values
    [of 3 "\<lparr>keyToValue = [], valueToKey = [], keyOrder = [], capacity = 3\<rparr>"
        "[OpSet key1 value1, OpSet key2 value2, OpSet key3 value3, OpDelete key3,
          OpSet key1 value3, OpSet key4 value4]"
        5
        "\<lparr>keyToValue = [(key1, value3), (key2, value2)],
          valueToKey = [(value2, key2), (value3, key1)], keyOrder = [key2, key1],
          capacity = 3\<rparr>"]
  by (simp add: registry_defs)

text \<open>
  C4. A registry made by \<^verbatim>\<open>NewPodRegistry\<close> with a positive capacity runs every sequence
  of \<^verbatim>\<open>Set\<close> calls to its end without a panic, and \<^verbatim>\<open>Count()\<close> is then at most the
  capacity.
\<close>

theorem Count_within_capacity:
  "0 < cap \<Longrightarrow>
     \<exists>pr0 pr. NewPodRegistry cap = Inr pr0
       \<and> run pr0 (map (\<lambda>(key, val). OpSet key val) sets) = Inr pr
       \<and> capacity pr = cap \<and> Count pr \<le> cap"
proof -
  assume pos: "0 < cap"
  define pr0 where "pr0 = \<lparr>keyToValue = [], valueToKey = [], keyOrder = [], capacity = cap\<rparr>"
  have new: "NewPodRegistry cap = Inr pr0" using pos by (simp add: NewPodRegistry_def pr0_def)
  then have r0: "reachable pr0" by (rule reachable.created)
  have c0: "capacity pr0 = cap" by (simp add: pr0_def)
  obtain pr where run: "run pr0 (map (\<lambda>(key, val). OpSet key val) sets) = Inr pr"
    using run_returns[OF r0] pos c0 by metis
  have "reachable pr" using r0 run by (rule run_reachable)
  then have "Count pr \<le> capacity pr" by (rule reachable_capacity)
  moreover have "capacity pr = cap" using run c0 by (simp add: run_capacity)
  ultimately show ?thesis using new run by auto
qed

theorem Count_within_capacity_witness:
  "Count \<lparr>keyToValue = [(key2, value2), (key3, value3), (key4, value4)],
      valueToKey = [(value2, key2), (value3, key3), (value4, key4)],
      keyOrder = [key2, key3, key4], capacity = 3\<rparr> \<le> 3
   \<and> run \<lparr>keyToValue = [], valueToKey = [], keyOrder = [], capacity = 3\<rparr>
        (map (\<lambda>(key, val). OpSet key val)
           [(key1, value1), (key2, value2), (key3, value3), (key4, value4)])
     = Inr \<lparr>keyToValue = [(key2, value2), (key3, value3), (key4, value4)],
      valueToKey = [(value2, key2), (value3, key3), (value4, key4)],
      keyOrder = [key2, key3, key4], capacity = 3\<rparr>"
  using Count_within_capacity
    [of 3 "[(key1, value1), (key2, value2), (key3, value3), (key4, value4)]"]
  by (simp add: registry_defs)

section \<open>Set and Delete\<close>

text \<open>
  C5. \<^verbatim>\<open>Set\<close> on a key that is present returns without a panic; it removes the reverse
  entry of the old value, binds the key to the new value in both maps, and moves the key
  to the end of the eviction order, the other keys keeping their order. So on a new
  registry of capacity 3, for distinct keys \<open>a\<close>, \<open>b\<close>, \<open>c\<close>, \<open>d\<close> and any values, after
  \<^verbatim>\<open>Set\<close> of \<open>a\<close>, \<open>b\<close>, \<open>c\<close>, again \<open>a\<close>, and then \<open>d\<close>, it is \<open>b\<close> that is gone and \<open>a\<close> that
  is kept, with its new value.
\<close>

theorem Set_refreshes_present_key:
  "(map_of (keyToValue pr) key = Some old \<longrightarrow>
      (\<exists>pr'. Set pr key val = Inr pr'
         \<and> map_of (keyToValue pr') = (map_of (keyToValue pr))(key \<mapsto> val)
         \<and> map_of (valueToKey pr') = ((map_of (valueToKey pr))(old := None))(val \<mapsto> key)
         \<and> (val \<noteq> old \<longrightarrow> map_of (valueToKey pr') old = None)
         \<and> keyOrder pr' = cutFirst key (keyOrder pr) @ [key]
         \<and> (distinct (keyOrder pr) \<longrightarrow>
              keyOrder pr' = filter (\<lambda>k. k \<noteq> key) (keyOrder pr) @ [key])
         \<and> capacity pr' = capacity pr))
   \<and> (distinct [a, b, c, d] \<longrightarrow>
      (\<exists>pr0 pr. NewPodRegistry 3 = Inr pr0
         \<and> run pr0 [OpSet a va, OpSet b vb, OpSet c vc, OpSet a va', OpSet d vd] = Inr pr
         \<and> map_of (keyToValue pr) b = None
         \<and> map_of (keyToValue pr) a = Some va'
         \<and> fst ` set (keyToValue pr) = {a, c, d}
         \<and> keyOrder pr = [c, a, d]))"
proof (intro conjI impI)
  assume "map_of (keyToValue pr) key = Some old"
  then show "\<exists>pr'. Set pr key val = Inr pr'
         \<and> map_of (keyToValue pr') = (map_of (keyToValue pr))(key \<mapsto> val)
         \<and> map_of (valueToKey pr') = ((map_of (valueToKey pr))(old := None))(val \<mapsto> key)
         \<and> (val \<noteq> old \<longrightarrow> map_of (valueToKey pr') old = None)
         \<and> keyOrder pr' = cutFirst key (keyOrder pr) @ [key]
         \<and> (distinct (keyOrder pr) \<longrightarrow>
              keyOrder pr' = filter (\<lambda>k. k \<noteq> key) (keyOrder pr) @ [key])
         \<and> capacity pr' = capacity pr"
    by (simp add: Set_present update_conv' delete_conv' cutFirst_distinct)
next
  assume "distinct [a, b, c, d]"
  then show "\<exists>pr0 pr. NewPodRegistry 3 = Inr pr0
         \<and> run pr0 [OpSet a va, OpSet b vb, OpSet c vc, OpSet a va', OpSet d vd] = Inr pr
         \<and> map_of (keyToValue pr) b = None
         \<and> map_of (keyToValue pr) a = Some va'
         \<and> fst ` set (keyToValue pr) = {a, c, d}
         \<and> keyOrder pr = [c, a, d]"
    by (rule scenario_refresh)
qed

theorem Set_refreshes_present_key_witness:
  "Set \<lparr>keyToValue = [(key1, value1), (key2, value2)],
         valueToKey = [(value1, key1), (value2, key2)], keyOrder = [key1, key2],
         capacity = 3\<rparr> key1 value3
     = Inr \<lparr>keyToValue = [(key1, value3), (key2, value2)],
         valueToKey = [(value2, key2), (value3, key1)], keyOrder = [key2, key1],
         capacity = 3\<rparr>
   \<and> run \<lparr>keyToValue = [], valueToKey = [], keyOrder = [], capacity = 3\<rparr>
         [OpSet key1 value1, OpSet key2 value2, OpSet key3 value3, OpSet key1 value1,
          OpSet key4 value4]
     = Inr \<lparr>keyToValue = [(key1, value1), (key3, value3), (key4, value4)],
         valueToKey = [(value3, key3), (value1, key1), (value4, key4)],
         keyOrder = [key3, key1, key4], capacity = 3\<rparr>"
  using Set_refreshes_present_key
    [of "\<lparr>keyToValue = [(key1, value1), (key2, value2)],
          valueToKey = [(value1, key1), (value2, key2)], keyOrder = [key1, key2],
          capacity = 3\<rparr>" key1 value1 value3 key1 key2 key3 key4 value1 value2 value3 value1
        value4]
  by (simp add: registry_defs)

text \<open>
  C6. In a state a program can reach, with a positive capacity, \<^verbatim>\<open>Set\<close> of a new key on a
  full registry removes exactly the head of the eviction order from the forward map,
  the entry of its value from the reverse map, and then inserts the new pair; the count
  stays. So on a new registry of capacity 3, for distinct keys \<open>a\<close>, \<open>b\<close>, \<open>c\<close>, \<open>d\<close> set
  in this order, \<open>a\<close> is evicted and exactly \<open>b\<close>, \<open>c\<close>, \<open>d\<close> remain.
\<close>

theorem Set_evicts_oldest:
  "(reachable pr \<and> map_of (keyToValue pr) key = None \<and> capacity pr \<le> Count pr
      \<and> 0 < capacity pr \<longrightarrow>
      (\<exists>oldest ks ov pr'. keyOrder pr = oldest # ks
         \<and> map_of (keyToValue pr) oldest = Some ov
         \<and> Set pr key val = Inr pr'
         \<and> map_of (keyToValue pr') = ((map_of (keyToValue pr))(oldest := None))(key \<mapsto> val)
         \<and> map_of (valueToKey pr') = ((map_of (valueToKey pr))(ov := None))(val \<mapsto> key)
         \<and> keyOrder pr' = ks @ [key]
         \<and> Count pr' = Count pr))
   \<and> (distinct [a, b, c, d] \<longrightarrow>
      (\<exists>pr0 pr. NewPodRegistry 3 = Inr pr0
         \<and> run pr0 [OpSet a va, OpSet b vb, OpSet c vc, OpSet d vd] = Inr pr
         \<and> map_of (keyToValue pr) a = None
         \<and> set (keyToValue pr) = {(b, vb), (c, vc), (d, vd)}
         \<and> keyOrder pr = [b, c, d] \<and> Count pr = 3))"
  using evict_step[of pr key val] scenario_fifo[of a b c d va vb vc vd] by blast

theorem Set_evicts_oldest_witness:
  "reachable \<lparr>keyToValue = [(key1, value1), (key2, value2), (key3, value3)],
      valueToKey = [(value1, key1), (value2, key2), (value3, key3)],
      keyOrder = [key1, key2, key3], capacity = 3\<rparr>
   \<and> Set \<lparr>keyToValue = [(key1, value1), (key2, value2), (key3, value3)],
      valueToKey = [(value1, key1), (value2, key2), (value3, key3)],
      keyOrder = [key1, key2, key3], capacity = 3\<rparr> key4 value4
     = Inr \<lparr>keyToValue = [(key2, value2), (key3, value3), (key4, value4)],
      valueToKey = [(value2, key2), (value3, key3), (value4, key4)],
      keyOrder = [key2, key3, key4], capacity = 3\<rparr>"
proof -
  have "NewPodRegistry 3 = Inr \<lparr>keyToValue = [], valueToKey = [], keyOrder = [], capacity = 3\<rparr>"
    by (simp add: NewPodRegistry_def)
  then have "reachable \<lparr>keyToValue = [], valueToKey = [], keyOrder = [], capacity = 3\<rparr>"
    by (rule reachable.created)
  moreover have "run \<lparr>keyToValue = [], valueToKey = [], keyOrder = [], capacity = 3\<rparr>
      [OpSet key1 value1, OpSet key2 value2, OpSet key3 value3]
    = Inr \<lparr>keyToValue = [(key1, value1), (key2, value2), (key3, value3)],
      valueToKey = [(value1, key1), (value2, key2), (value3, key3)],
      keyOrder = [key1, key2, key3], capacity = 3\<rparr>"
    by (simp add: registry_defs)
  ultimately have r: "reachable \<lparr>keyToValue = [(key1, value1), (key2, value2), (key3, value3)],
      valueToKey = [(value1, key1), (value2, key2), (value3, key3)],
      keyOrder = [key1, key2, key3], capacity = 3\<rparr>"
    by (rule run_reachable)
  show ?thesis
    using r Set_evicts_oldest
      [of "\<lparr>keyToValue = [(key1, value1), (key2, value2), (key3, value3)],
            valueToKey = [(value1, key1), (value2, key2), (value3, key3)],
            keyOrder = [key1, key2, key3], capacity = 3\<rparr>" key4 value4
          key1 key2 key3 key4 value1 value2 value3 value4]
    by (simp add: registry_defs)
qed

text \<open>
  C9. \<^verbatim>\<open>Delete\<close> returns no error. On a key that is absent it changes nothing: the state,
  and so both maps, the eviction order and the count, stay as they are. On a key that is
  present it removes the forward binding, the reverse binding of the key's value and
  the key's entry in the eviction order; in a state a program can reach the key then
  occurs nowhere in the order, and the count is one less.
\<close>

theorem Delete_absent_or_present:
  "(map_of (keyToValue pr) key = None \<longrightarrow>
      Delete pr key = pr \<and> Count (Delete pr key) = Count pr)
   \<and> (map_of (keyToValue pr) key = Some val \<longrightarrow>
        map_of (keyToValue (Delete pr key)) = (map_of (keyToValue pr))(key := None)
      \<and> map_of (valueToKey (Delete pr key)) = (map_of (valueToKey pr))(val := None)
      \<and> keyOrder (Delete pr key) = remove1 key (keyOrder pr)
      \<and> capacity (Delete pr key) = capacity pr
      \<and> (reachable pr \<longrightarrow>
            key \<notin> set (keyOrder (Delete pr key))
          \<and> Count (Delete pr key) = Count pr - 1))"
proof (intro conjI impI)
  assume "map_of (keyToValue pr) key = None"
  then show "Delete pr key = pr" by (simp add: Delete_def deleteInternal_def)
  then show "Count (Delete pr key) = Count pr" by simp
next
  assume p: "map_of (keyToValue pr) key = Some val"
  then show "map_of (keyToValue (Delete pr key)) = (map_of (keyToValue pr))(key := None)"
    and "map_of (valueToKey (Delete pr key)) = (map_of (valueToKey pr))(val := None)"
    and "keyOrder (Delete pr key) = remove1 key (keyOrder pr)"
    and "capacity (Delete pr key) = capacity pr"
    by (simp_all add: Delete_def deleteInternal_def removeFromKeyOrder_def delete_conv'
        cutFirst_remove1)
  assume "reachable pr"
  then have ot: "orderTracks pr" by (rule reachable_orderTracks)
  then show "key \<notin> set (keyOrder (Delete pr key))"
    using p
    by (simp add: Delete_def deleteInternal_def removeFromKeyOrder_def orderTracks_def
        cutFirst_absent)
  have "key \<in> fst ` set (keyToValue pr)"
    using p by (metis map_of_keys option.distinct(1))
  then have "Suc (length (AList.delete key (keyToValue pr))) = length (keyToValue pr)"
    using ot unfolding orderTracks_def by (simp add: length_delete_present)
  then show "Count (Delete pr key) = Count pr - 1"
    using p by (simp add: Delete_def deleteInternal_def removeFromKeyOrder_def Count_def)
qed

theorem Delete_absent_or_present_witness:
  "Delete \<lparr>keyToValue = [(key1, value1), (key2, value2)],
      valueToKey = [(value1, key1), (value2, key2)], keyOrder = [key1, key2],
      capacity = 3\<rparr> key3
     = \<lparr>keyToValue = [(key1, value1), (key2, value2)],
      valueToKey = [(value1, key1), (value2, key2)], keyOrder = [key1, key2],
      capacity = 3\<rparr>
   \<and> Delete \<lparr>keyToValue = [(key1, value1), (key2, value2)],
      valueToKey = [(value1, key1), (value2, key2)], keyOrder = [key1, key2],
      capacity = 3\<rparr> key1
     = \<lparr>keyToValue = [(key2, value2)], valueToKey = [(value2, key2)], keyOrder = [key2],
      capacity = 3\<rparr>
   \<and> reachable \<lparr>keyToValue = [(key1, value1), (key2, value2)],
      valueToKey = [(value1, key1), (value2, key2)], keyOrder = [key1, key2],
      capacity = 3\<rparr>"
proof -
  have "NewPodRegistry 3 = Inr \<lparr>keyToValue = [], valueToKey = [], keyOrder = [], capacity = 3\<rparr>"
    by (simp add: NewPodRegistry_def)
  then have "reachable \<lparr>keyToValue = [], valueToKey = [], keyOrder = [], capacity = 3\<rparr>"
    by (rule reachable.created)
  moreover have "run \<lparr>keyToValue = [], valueToKey = [], keyOrder = [], capacity = 3\<rparr>
      [OpSet key1 value1, OpSet key2 value2]
    = Inr \<lparr>keyToValue = [(key1, value1), (key2, value2)],
      valueToKey = [(value1, key1), (value2, key2)], keyOrder = [key1, key2],
      capacity = 3\<rparr>"
    by (simp add: registry_defs)
  ultimately have r: "reachable \<lparr>keyToValue = [(key1, value1), (key2, value2)],
      valueToKey = [(value1, key1), (value2, key2)], keyOrder = [key1, key2],
      capacity = 3\<rparr>"
    by (rule run_reachable)
  show ?thesis
    using r
      Delete_absent_or_present
      [of "\<lparr>keyToValue = [(key1, value1), (key2, value2)],
            valueToKey = [(value1, key1), (value2, key2)], keyOrder = [key1, key2],
            capacity = 3\<rparr>" key3 value1]
      Delete_absent_or_present
      [of "\<lparr>keyToValue = [(key1, value1), (key2, value2)],
            valueToKey = [(value1, key1), (value2, key2)], keyOrder = [key1, key2],
            capacity = 3\<rparr>" key1 value1]
    by (simp add: registry_defs)
qed

section \<open>Non-positive capacity\<close>

text \<open>
  C3, as the specification states it: \<^verbatim>\<open>NewPodRegistry\<close> rejects every capacity \<open>\<le> 0\<close>.
  It returns a registry for capacity 0.
\<close>

theorem NewPodRegistry_accepts_zero:
  "NewPodRegistry 0 = Inr \<lparr>keyToValue = [], valueToKey = [], keyOrder = [], capacity = 0\<rparr>"
  by (simp add: NewPodRegistry_def)

text \<open>
  C3, amended: \<^verbatim>\<open>NewPodRegistry\<close> checks nothing itself. A negative capacity fails
  in the constructor, by the run-time panic of \<^verbatim>\<open>make\<close> on a negative slice capacity.
  Capacity 0 is accepted: the constructor returns an empty registry, and the failure
  comes later, at every \<^verbatim>\<open>Set\<close>.
\<close>

theorem NewPodRegistry_nonpositive:
  "cap \<le> 0 \<Longrightarrow>
     (cap < 0 \<longrightarrow> NewPodRegistry cap = Inl MakesliceCapOutOfRange) \<and>
     (cap = 0 \<longrightarrow>
        (\<exists>pr. NewPodRegistry cap = Inr pr \<and> Count pr = 0 \<and>
           (\<forall>key val. Set pr key val = Inl IndexOutOfRange)))"
  by (auto simp: NewPodRegistry_def Count_def Set_def)

theorem NewPodRegistry_nonpositive_witness:
  "NewPodRegistry (- 1) = Inl MakesliceCapOutOfRange
   \<and> Set \<lparr>keyToValue = [], valueToKey = [], keyOrder = [], capacity = 0\<rparr> key1 value1
       = Inl IndexOutOfRange"
  using NewPodRegistry_nonpositive [of "- 1"] NewPodRegistry_nonpositive [of 0]
  by (simp add: NewPodRegistry_def)


text \<open>
  C10. A registry with capacity \<open>\<le> 0\<close> and nothing stored takes the eviction branch on
  its first \<^verbatim>\<open>Set\<close> (\<open>0 \<ge> capacity\<close>) and reads \<^verbatim>\<open>keyOrder[0]\<close> of an empty slice: the
  call panics, for every key and value. Capacity 0 is the one such registry that
  \<^verbatim>\<open>NewPodRegistry\<close> itself hands out.
\<close>

theorem Set_panics_without_capacity:
  "capacity pr \<le> 0 \<Longrightarrow> keyToValue pr = [] \<Longrightarrow> keyOrder pr = [] \<Longrightarrow>
     Set pr key val = Inl IndexOutOfRange"
  by (simp add: Set_def)

theorem Set_panics_without_capacity_witness:
  "Set \<lparr>keyToValue = [], valueToKey = [], keyOrder = [], capacity = 0\<rparr>
       \<lparr>Podname = ''pod1'', Namespace = ''ns1''\<rparr>
       \<lparr>PodUuid = ''uuid1'', ContainerId = ''container1''\<rparr> = Inl IndexOutOfRange
   \<and> NewPodRegistry 0 = Inr \<lparr>keyToValue = [], valueToKey = [], keyOrder = [], capacity = 0\<rparr>"
  using Set_panics_without_capacity
    [of "\<lparr>keyToValue = [], valueToKey = [], keyOrder = [], capacity = 0\<rparr>"
        "\<lparr>Podname = ''pod1'', Namespace = ''ns1''\<rparr>"
        "\<lparr>PodUuid = ''uuid1'', ContainerId = ''container1''\<rparr>"]
  by (simp add: NewPodRegistry_def)

section \<open>The label query\<close>

text \<open>The matcher as a statement on the selector's pairs, where it agrees with the
  specification's reading, the copy of a map, the two collecting loops and the sort.\<close>

lemma matchesSelector_iff:
  "matchesSelector labels selector = (\<forall>(k, v) \<in> set selector. indexOr [] labels k = v)"
  by (induction labels selector rule: matchesSelector.induct) auto

lemma specMatches_iff:
  "specMatches labels selector = (\<forall>(k, v) \<in> set selector. map_of labels k = Some v)"
  by (auto simp: specMatches_def list_all_iff)

lemma matchesSelector_specMatches:
  "list_all (\<lambda>(k, v). v \<noteq> []) selector \<Longrightarrow>
     matchesSelector labels selector = specMatches labels selector"
proof (induction labels selector rule: matchesSelector.induct)
  case (1 labels)
  then show ?case by (simp add: specMatches_def)
next
  case (2 labels key val selector)
  then show ?case
    by (cases "map_of labels key") (auto simp: specMatches_def indexOr_def)
qed

lemma specMatches_matchesSelector:
  "specMatches labels selector \<Longrightarrow> matchesSelector labels selector"
proof (induction labels selector rule: matchesSelector.induct)
  case (1 labels)
  then show ?case by simp
next
  case (2 labels key val selector)
  then show ?case by (auto simp: specMatches_def indexOr_def)
qed

lemma copyMap_acc:
  "distinct (map fst (acc @ m)) \<Longrightarrow>
     foldl (\<lambda>acc (k, v). AList.update k v acc) acc m = acc @ m"
proof (induction m arbitrary: acc)
  case Nil
  then show ?case by simp
next
  case (Cons p m)
  obtain k v where p: "p = (k, v)" by (cases p)
  have "k \<notin> set (map fst acc)" using Cons.prems p by auto
  then have "AList.update k v acc = acc @ [(k, v)]"
    by (induction acc) auto
  moreover have "distinct (map fst ((acc @ [(k, v)]) @ m))" using Cons.prems p by simp
  ultimately show ?case using Cons.IH[of "acc @ [(k, v)]"] p by simp
qed

lemma copyMap_distinct: "distinct (map fst m) \<Longrightarrow> copyMap m = m"
  using copyMap_acc[of "[]" m] by (simp add: copyMap_def)

lemma collectPods_eq:
  "collectPods selectorMap m ipInfos =
     ipInfos @ map ipInfoOf (filter (\<lambda>p. matchesSelector (Labels p) selectorMap) (map snd m))"
  by (induction selectorMap m ipInfos rule: collectPods.induct) (auto simp: ipInfoOf_def)

lemma collectNamespaces_eq:
  "collectNamespaces selectorMap d ipInfos =
     ipInfos @ map ipInfoOf (filter (\<lambda>p. matchesSelector (Labels p) selectorMap)
       (concat (map (\<lambda>(namespace, m). map snd m) d)))"
  by (induction selectorMap d ipInfos rule: collectNamespaces.induct) (auto simp: collectPods_eq)

lemma mset_insertBy: "mset (insertBy lt x xs) = add_mset x (mset xs)"
  by (induction xs) auto

lemma mset_sortSlice: "mset (sortSlice lt xs) = mset xs"
  by (induction xs) (auto simp: sortSlice_def mset_insertBy)

lemma set_insertBy: "set (insertBy lt x xs) = insert x (set xs)"
  by (induction xs) auto

lemma sorted_insertBy:
  fixes f :: "'a \<Rightarrow> 'b::linorder"
  shows "sorted (map f xs) \<Longrightarrow> sorted (map f (insertBy (\<lambda>a b. f a < f b) x xs))"
  by (induction xs) (auto simp: set_insertBy)

lemma sorted_sortSlice:
  fixes f :: "'a \<Rightarrow> 'b::linorder"
  shows "sorted (map f (sortSlice (\<lambda>a b. f a < f b) xs))"
  by (induction xs) (auto simp: sortSlice_def sorted_insertBy)

lemma length_sortSlice: "length (sortSlice lt xs) = length xs"
proof -
  have "size (mset (sortSlice lt xs)) = size (mset xs)" by (simp only: mset_sortSlice)
  then show ?thesis by simp
qed

lemmas store_defs =
  mainStore_def runStore_def NewPodStore_def AddPod_def DeletePod_def indexOr_def podAt_def
  GetIPWithLabelSelector_def copyMap_def sortSlice_def

text \<open>
  C2, as the specification states it, asks for the key to be present with exactly the
  selector's value. \<^verbatim>\<open>matchesSelector\<close> compares \<^verbatim>\<open>labels[key]\<close> with the value, and a
  missing key reads as the empty string: a selector pair with an empty value matches a
  Pod that has no such label. Here the Pod has the one label \<^verbatim>\<open>env=prod\<close>, the selector
  asks for \<^verbatim>\<open>app\<close> with the empty value, and the query returns the Pod's addresses.
  On selectors without an empty value the two readings agree
  (\<open>matchesSelector_specMatches\<close>), and what the specification selects the code selects
  (\<open>specMatches_matchesSelector\<close>).
\<close>

theorem empty_selector_value_matches_missing_label:
  "matchesSelector [(''env'', ''prod'')] [(''app'', [])]
   \<and> \<not> specMatches [(''env'', ''prod'')] [(''app'', [])]
   \<and> map_of [(''env'', ''prod'')] ''app'' = None
   \<and> GetIPWithLabelSelector ipString
         (AddPod NewPodStore ''default'' ''pod1'' [(''env'', ''prod'')] ''192.168.1.1'' [])
         (Some \<lparr>MatchLabels = [(''app'', [])]\<rparr>)
       = Inr [\<lparr>IPv4 = ''192.168.1.1'', IPv6 = []\<rparr>]"
  by (simp add: specMatches_def indexOr_def GetIPWithLabelSelector_def AddPod_def
      NewPodStore_def copyMap_def sortSlice_def)

text \<open>What the query returns, for every store and selector: one \<open>IpInfo\<close> for each
  stored Pod that the code's matcher selects, over all namespaces, in ascending order of
  \<^verbatim>\<open>net.ParseIP(ip.IPv4).String()\<close>, whatever that function of the Go library returns
  (\<open>ipString\<close>). For a selector without an empty value these are the Pods that match as
  the specification words it.\<close>

lemma query_one_per_match_sorted:
  "\<exists>out. GetIPWithLabelSelector ipString ps (Some sel) = Inr out
     \<and> mset out = mset (map ipInfoOf (filter (selects sel) (storedPods ps)))
     \<and> length out = length (filter (selects sel) (storedPods ps))
     \<and> sorted (map (\<lambda>ipInfo. ipString (IPv4 ipInfo)) out)"
proof -
  define out where
    "out = sortSlice (\<lambda>a b. ipString (IPv4 a) < ipString (IPv4 b))
             (collectNamespaces (copyMap (MatchLabels sel)) (data ps) [])"
  have r: "GetIPWithLabelSelector ipString ps (Some sel) = Inr out"
    by (simp add: GetIPWithLabelSelector_def out_def)
  have sel: "selects sel = (\<lambda>p. matchesSelector (Labels p) (copyMap (MatchLabels sel)))"
    by (simp add: selects_def fun_eq_iff)
  have m: "mset out = mset (map ipInfoOf (filter (selects sel) (storedPods ps)))"
    by (simp add: out_def mset_sortSlice collectNamespaces_eq storedPods_def sel)
  have l: "length out = length (filter (selects sel) (storedPods ps))"
    by (simp add: out_def length_sortSlice collectNamespaces_eq storedPods_def sel)
  have s: "sorted (map (\<lambda>ipInfo. ipString (IPv4 ipInfo)) out)"
    unfolding out_def by (rule sorted_sortSlice)
  show ?thesis using r m l s by blast
qed

lemma selects_specMatches:
  assumes "distinct (map fst (MatchLabels sel))"
    and "list_all (\<lambda>(k, v). v \<noteq> []) (MatchLabels sel)"
  shows "selects sel podInfo = specMatches (Labels podInfo) (MatchLabels sel)"
  using assms by (simp add: selects_def copyMap_distinct matchesSelector_specMatches)

lemma query_spec_on_nonempty_values:
  assumes "distinct (map fst (MatchLabels sel))"
    and "list_all (\<lambda>(k, v). v \<noteq> []) (MatchLabels sel)"
  shows "\<exists>out. GetIPWithLabelSelector ipString ps (Some sel) = Inr out
     \<and> mset out = mset (map ipInfoOf
          (filter (\<lambda>p. specMatches (Labels p) (MatchLabels sel)) (storedPods ps)))
     \<and> sorted (map (\<lambda>ipInfo. ipString (IPv4 ipInfo)) out)"
proof -
  have "selects sel = (\<lambda>p. specMatches (Labels p) (MatchLabels sel))"
    using assms by (simp add: fun_eq_iff selects_specMatches)
  then show ?thesis
    using query_one_per_match_sorted[of ipString ps sel] by auto
qed

text \<open>
  C7, as the specification states it: the result holds one \<open>IpInfo\<close> for each matching
  Pod and is sorted. The order holds (\<open>query_one_per_match_sorted\<close>), and so does the
  content for every selector without an empty value (\<open>query_spec_on_nonempty_values\<close>).
  With an empty value the content fails, by the defect of C2: on the store of \<^verbatim>\<open>main\<close>,
  whose three Pods carry no label \<^verbatim>\<open>env\<close> with the empty value, the selector
  \<^verbatim>\<open>env\<close> with the empty value matches no Pod, and the query returns the addresses of
  the Pod that has no label \<^verbatim>\<open>env\<close> at all.
\<close>

theorem query_returns_unmatched_pod:
  "filter (\<lambda>p. specMatches (Labels p) [(''env'', [])]) (storedPods mainStore) = []
   \<and> length (storedPods mainStore) = 3
   \<and> GetIPWithLabelSelector ipString mainStore (Some \<lparr>MatchLabels = [(''env'', [])]\<rparr>)
       = Inr [\<lparr>IPv4 = [], IPv6 = ''fe80::2''\<rparr>]"
  by (simp add: store_defs storedPods_def specMatches_def)

section \<open>Namespaces of the store\<close>

lemma podAt_DeletePod_same: "podAt (DeletePod ps namespace name) namespace name = None"
  by (auto simp: podAt_def DeletePod_def Let_def indexOr_def update_conv' delete_conv'
      split: option.splits)

lemma delete_Nil_map_of: "AList.delete k m = [] \<Longrightarrow> k' \<noteq> k \<Longrightarrow> map_of m k' = None"
proof -
  assume "AList.delete k m = []" and "k' \<noteq> k"
  then have "map_of (AList.delete k m) k' = None" by simp
  then show ?thesis using \<open>k' \<noteq> k\<close> by simp
qed

lemma podAt_DeletePod_other:
  assumes "(ns, n) \<noteq> (namespace, name)"
  shows "podAt (DeletePod ps namespace name) ns n = podAt ps ns n"
proof (cases "map_of (data ps) namespace")
  case None
  then show ?thesis by (simp add: DeletePod_def)
next
  case (Some m)
  show ?thesis
  proof (cases "ns = namespace")
    case False
    then show ?thesis
      using Some by (simp add: podAt_def DeletePod_def Let_def update_conv' delete_conv')
  next
    case True
    then have n: "n \<noteq> name" using assms by simp
    show ?thesis
    proof (cases "AList.delete name m = []")
      case True
      then have "map_of m n = None" using n by (rule delete_Nil_map_of)
      then show ?thesis
        using Some True \<open>ns = namespace\<close>
        by (simp add: podAt_def DeletePod_def Let_def indexOr_def update_conv' delete_conv')
    next
      case False
      then show ?thesis
        using Some n \<open>ns = namespace\<close>
        by (simp add: podAt_def DeletePod_def Let_def indexOr_def update_conv' delete_conv')
    qed
  qed
qed

lemma DeletePod_absent:
  assumes "noEmptyNamespace ps" and "podAt ps namespace name = None"
  shows "DeletePod ps namespace name = ps"
proof (cases "map_of (data ps) namespace")
  case None
  then show ?thesis by (simp add: DeletePod_def)
next
  case (Some m)
  then have "m \<noteq> []" using assms(1) by (simp add: noEmptyNamespace_def)
  have "map_of m name = None" using assms(2) Some by (simp add: podAt_def)
  then have "name \<notin> fst ` set m" by (simp add: map_of_keys)
  then have d: "AList.delete name m = m" by simp
  have u: "AList.update namespace m (data ps) = data ps" using Some by (rule update_triv)
  show ?thesis
    using Some \<open>m \<noteq> []\<close> by (simp add: DeletePod_def Let_def d u indexOr_def)
qed

lemma DeletePod_last:
  "map_of (data ps) namespace = Some m \<Longrightarrow> AList.delete name m = [] \<Longrightarrow>
     map_of (data (DeletePod ps namespace name)) namespace = None"
  by (simp add: DeletePod_def Let_def indexOr_def update_conv' delete_conv')

lemma noEmptyNamespace_AddPod: "noEmptyNamespace ps \<Longrightarrow> noEmptyNamespace (AddPod ps namespace name labels ipv4 ipv6)"
  by (auto simp: noEmptyNamespace_def AddPod_def Let_def update_conv' split: option.splits if_splits)

lemma noEmptyNamespace_DeletePod: "noEmptyNamespace ps \<Longrightarrow> noEmptyNamespace (DeletePod ps namespace name)"
  by (auto simp: noEmptyNamespace_def DeletePod_def Let_def indexOr_def update_conv' delete_conv'
      split: option.splits if_splits)

lemma noEmptyNamespace_foldl:
  "noEmptyNamespace ps \<Longrightarrow> noEmptyNamespace (foldl applyStoreOp ps cs)"
proof (induction cs arbitrary: ps)
  case Nil
  then show ?case by simp
next
  case (Cons c cs)
  have "noEmptyNamespace (applyStoreOp ps c)"
    using Cons.prems by (cases c) (simp_all add: noEmptyNamespace_AddPod noEmptyNamespace_DeletePod)
  then show ?case using Cons.IH by simp
qed

text \<open>
  C8. After \<^verbatim>\<open>DeletePod\<close> the store holds nothing at the namespace and name, and every
  other entry is as before. When the store held nothing there (and no namespace was
  empty) the call changes nothing. When the removal leaves the inner map of the namespace
  empty, the namespace is no longer a key of the outer map. And after every sequence of
  \<^verbatim>\<open>AddPod\<close> and \<^verbatim>\<open>DeletePod\<close> calls on a new store no namespace maps to an empty inner map.
\<close>

theorem DeletePod_cleans_namespace:
  "podAt (DeletePod ps namespace name) namespace name = None
   \<and> (\<forall>ns n. (ns, n) \<noteq> (namespace, name) \<longrightarrow>
         podAt (DeletePod ps namespace name) ns n = podAt ps ns n)
   \<and> (noEmptyNamespace ps \<and> podAt ps namespace name = None \<longrightarrow>
         DeletePod ps namespace name = ps)
   \<and> (\<forall>m. map_of (data ps) namespace = Some m \<and> AList.delete name m = [] \<longrightarrow>
         map_of (data (DeletePod ps namespace name)) namespace = None)
   \<and> noEmptyNamespace (runStore NewPodStore cs)"
proof -
  have "noEmptyNamespace NewPodStore" by (simp add: noEmptyNamespace_def NewPodStore_def)
  then have "noEmptyNamespace (runStore NewPodStore cs)"
    unfolding runStore_def by (rule noEmptyNamespace_foldl)
  then show ?thesis
    using podAt_DeletePod_same[of ps namespace name] podAt_DeletePod_other[of _ _ namespace name ps]
      DeletePod_absent[of ps namespace name] DeletePod_last[of ps namespace _ name]
    by blast
qed

theorem DeletePod_cleans_namespace_witness:
  "noEmptyNamespace mainStore
   \<and> DeletePod mainStore ''default'' ''pod9'' = mainStore
   \<and> map_of (data (DeletePod mainStore ''kube-system'' ''pod3'')) ''kube-system'' = None
   \<and> podAt (DeletePod mainStore ''default'' ''pod1'') ''default'' ''pod1'' = None
   \<and> podAt (DeletePod mainStore ''default'' ''pod1'') ''default'' ''pod2''
       = Some \<lparr>Labels = [(''app'', ''nginx''), (''env'', ''dev'')],
               PodInfo.IPv4 = ''192.168.1.2'', PodInfo.IPv6 = []\<rparr>"
proof -
  have ne: "noEmptyNamespace mainStore"
    using DeletePod_cleans_namespace
      [of mainStore "''default''" "''pod9''"
          "[OpAddPod ''default'' ''pod1'' [(''app'', ''nginx''), (''env'', ''prod'')]
              ''192.168.1.1'' ''fe80::1'',
            OpAddPod ''default'' ''pod2'' [(''app'', ''nginx''), (''env'', ''dev'')]
              ''192.168.1.2'' [],
            OpAddPod ''kube-system'' ''pod3'' [(''app'', ''kube-dns'')] [] ''fe80::2'']"]
    by (simp only: mainStore_def)
  have absent: "podAt mainStore ''default'' ''pod9'' = None"
    by (simp add: store_defs)
  have last: "map_of (data mainStore) ''kube-system''
      = Some [(''pod3'', \<lparr>Labels = [(''app'', ''kube-dns'')], PodInfo.IPv4 = [],
                PodInfo.IPv6 = ''fe80::2''\<rparr>)]"
    by (simp add: store_defs)
  have other: "podAt mainStore ''default'' ''pod2''
       = Some \<lparr>Labels = [(''app'', ''nginx''), (''env'', ''dev'')],
               PodInfo.IPv4 = ''192.168.1.2'', PodInfo.IPv6 = []\<rparr>"
    by (simp add: store_defs)
  show ?thesis
    using ne absent last other
      DeletePod_cleans_namespace [of mainStore "''default''" "''pod9''" "[]"]
      DeletePod_cleans_namespace [of mainStore "''kube-system''" "''pod3''" "[]"]
      DeletePod_cleans_namespace [of mainStore "''default''" "''pod1''" "[]"]
    by simp
qed

end
